theory Spec2Isabelle
  imports Main "HOL-Library.Sublist"
begin


section \<open>Python values, errors and dictionaries\<close>

text \<open>
  The bibliography manager \<^verbatim>\<open>src/app.py\<close> works on the entries that
  \<^verbatim>\<open>bibtexparser\<close> returns: Python dictionaries from field names to strings.
  The only non-string value the code itself can store in an entry is \<^verbatim>\<open>None\<close>
  (\<^verbatim>\<open>entry['ID'] = old_id\<close> in \<^verbatim>\<open>merge_bib_data\<close>, when neither record has
  an \<^verbatim>\<open>ID\<close>), so a field value is a string or \<^verbatim>\<open>None\<close>.

  Strings are lists of 8-bit characters. Python lower-cases by the Unicode tables; on
  the characters below 256 the only characters that become an ASCII letter are
  \<^verbatim>\<open>A\<close> to \<^verbatim>\<open>Z\<close>, and everything that is not an ASCII letter or digit is
  removed afterwards, so lower-casing the ASCII capitals alone gives the same result.
\<close>

datatype pyval = PStr string | PNone

datatype py_error = AttributeError | KeyError | IndexError

text \<open>
  A \<^verbatim>\<open>dict\<close> keeps its keys in insertion order, and \<^verbatim>\<open>list(d.values())\<close>
  reads that order, so a dictionary is an association list in insertion order (with
  distinct keys). Assigning to a key that is present keeps its position; a new key goes
  to the end.
\<close>

type_synonym ('k, 'v) dict = "('k \<times> 'v) list"

type_synonym entry = "(string, pyval) dict"

fun dict_set :: "'k \<Rightarrow> 'v \<Rightarrow> ('k, 'v) dict \<Rightarrow> ('k, 'v) dict" where
  "dict_set k v [] = [(k, v)]"
| "dict_set k v (p # d) = (if fst p = k then (k, v) # d else p # dict_set k v d)"

definition dict_get :: "('k, 'v) dict \<Rightarrow> 'k \<Rightarrow> 'v \<Rightarrow> 'v" where
  \<comment> \<open>\<^verbatim>\<open>d.get(k, default)\<close>\<close>
  "dict_get d k dflt = (case map_of d k of Some v \<Rightarrow> v | None \<Rightarrow> dflt)"

definition dict_item :: "('k, 'v) dict \<Rightarrow> 'k \<Rightarrow> py_error + 'v" where
  \<comment> \<open>\<^verbatim>\<open>d[k]\<close>, which raises \<^verbatim>\<open>KeyError\<close> on a missing key\<close>
  "dict_item d k = (case map_of d k of Some v \<Rightarrow> Inr v | None \<Rightarrow> Inl KeyError)"

definition dict_values :: "('k, 'v) dict \<Rightarrow> 'v list" where
  "dict_values d = map snd d"

definition dict_len :: "('k, 'v) dict \<Rightarrow> nat" where
  "dict_len d = length d"

definition list_item :: "'a list \<Rightarrow> int \<Rightarrow> py_error + 'a" where
  \<comment> \<open>\<^verbatim>\<open>xs[i]\<close>: an index below zero counts back from the end\<close>
  "list_item xs i =
     (if 0 \<le> i \<and> i < int (length xs) then Inr (xs ! nat i)
      else if i < 0 \<and> - int (length xs) \<le> i then Inr (xs ! nat (int (length xs) + i))
      else Inl IndexError)"

definition py_truthy :: "pyval \<Rightarrow> bool" where
  \<comment> \<open>the truth value of a string or \<^verbatim>\<open>None\<close>\<close>
  "py_truthy v = (case v of PStr s \<Rightarrow> s \<noteq> [] | PNone \<Rightarrow> False)"

definition py_str :: "pyval \<Rightarrow> string" where
  \<comment> \<open>\<^verbatim>\<open>str(v)\<close>\<close>
  "py_str v = (case v of PStr s \<Rightarrow> s | PNone \<Rightarrow> ''None'')"


section \<open>Record normalizer\<close>

definition ascii_upper :: string where
  "ascii_upper = ''ABCDEFGHIJKLMNOPQRSTUVWXYZ''"

definition ascii_lower :: string where
  "ascii_lower = ''abcdefghijklmnopqrstuvwxyz''"

definition ascii_digits :: string where
  "ascii_digits = ''0123456789''"

definition lower_char :: "char \<Rightarrow> char" where
  "lower_char c = (case map_of (zip ascii_upper ascii_lower) c of Some l \<Rightarrow> l | None \<Rightarrow> c)"

fun py_lower :: "string \<Rightarrow> string" where
  \<comment> \<open>\<^verbatim>\<open>s.lower()\<close>\<close>
  "py_lower [] = []"
| "py_lower (c # cs) = lower_char c # py_lower cs"

fun re_sub_non_alnum :: "string \<Rightarrow> string" where
  \<comment> \<open>\<^verbatim>\<open>re.sub(r'[^a-z0-9]', '', s)\<close>: every match of the class is replaced by nothing\<close>
  "re_sub_non_alnum [] = []"
| "re_sub_non_alnum (c # cs) =
     (if c \<notin> set (ascii_lower @ ascii_digits) then re_sub_non_alnum cs
      else c # re_sub_non_alnum cs)"

definition normalize_title :: "pyval \<Rightarrow> py_error + string" where
  \<comment> \<open>\<^verbatim>\<open>title.lower()\<close> exists on strings only\<close>
  "normalize_title title =
     (case title of
        PStr s \<Rightarrow> Inr (re_sub_non_alnum (py_lower s))
      | PNone \<Rightarrow> Inl AttributeError)"

definition normalize_id :: "pyval \<Rightarrow> string" where
  "normalize_id entry_id = re_sub_non_alnum (py_lower (py_str entry_id))"


section \<open>Merge engine\<close>

text \<open>
  \<^verbatim>\<open>{normalize_title(e.get('title', '')): e for e in existing_entries}\<close>: the
  comprehension assigns the entries in order into a dictionary that starts empty.
\<close>

fun title_map :: "entry list \<Rightarrow> (string, entry) dict \<Rightarrow> py_error + (string, entry) dict" where
  "title_map [] m = Inr m"
| "title_map (e # es) m =
     (case normalize_title (dict_get e ''title'' (PStr '''')) of
        Inl err \<Rightarrow> Inl err
      | Inr k \<Rightarrow> title_map es (dict_set k e m))"

text \<open>
  The body of the loop over the parsed entries. The state is the dictionary with the two
  counters. The entry comes fresh from the parser, so the assignment to its \<^verbatim>\<open>ID\<close>
  is seen by nothing but the dictionary it is stored in next.
\<close>

definition merge_entry ::
  "entry \<Rightarrow> (string, entry) dict \<times> nat \<times> nat \<Rightarrow> py_error + (string, entry) dict \<times> nat \<times> nat"
where
  "merge_entry entry st =
     (case st of (entry_map, added_count, updated_count) \<Rightarrow>
      let title = dict_get entry ''title'' (PStr '''') in
      if \<not> py_truthy title then Inr st
      else
        (case normalize_title title of
           Inl err \<Rightarrow> Inl err
         | Inr norm_title \<Rightarrow>
            (case map_of entry_map norm_title of
               Some stored \<Rightarrow>
                 if dict_len entry > dict_len stored then
                   let old_id = dict_get stored ''ID'' (dict_get entry ''ID'' PNone);
                       entry' = dict_set ''ID'' old_id entry
                   in Inr (dict_set norm_title entry' entry_map, added_count, updated_count + 1)
                 else Inr st
             | None \<Rightarrow> Inr (dict_set norm_title entry entry_map, added_count + 1, updated_count))))"

fun merge_loop ::
  "entry list \<Rightarrow> (string, entry) dict \<times> nat \<times> nat \<Rightarrow> py_error + (string, entry) dict \<times> nat \<times> nat"
where
  "merge_loop [] st = Inr st"
| "merge_loop (entry # rest) st =
     (case merge_entry entry st of
        Inl err \<Rightarrow> Inl err
      | Inr st' \<Rightarrow> merge_loop rest st')"

definition merge_entries :: "entry list \<Rightarrow> entry list \<Rightarrow> py_error + entry list \<times> nat \<times> nat" where
  \<comment> \<open>\<^verbatim>\<open>merge_bib_data\<close> from the construction of \<^verbatim>\<open>entry_map\<close> on\<close>
  "merge_entries existing_entries new_entries =
     (case title_map existing_entries [] of
        Inl err \<Rightarrow> Inl err
      | Inr entry_map \<Rightarrow>
         (case merge_loop new_entries (entry_map, 0, 0) of
            Inl err \<Rightarrow> Inl err
          | Inr (m, added_count, updated_count) \<Rightarrow>
              Inr (dict_values m, added_count, updated_count)))"

text \<open>
  The parser is the library \<^verbatim>\<open>bibtexparser\<close>: \<^verbatim>\<open>loads\<close> is the first call
  and \<^verbatim>\<open>loads_parser\<close> the second one, with an explicit \<^verbatim>\<open>BibTexParser()\<close>;
  \<^const>\<open>None\<close> stands for a raised exception. When both raise, the function reports the
  error and returns what it was given.
\<close>

definition merge_bib_data ::
  "(string \<Rightarrow> entry list option) \<Rightarrow> (string \<Rightarrow> entry list option) \<Rightarrow>
   entry list \<Rightarrow> string \<Rightarrow> py_error + entry list \<times> nat \<times> nat"
where
  "merge_bib_data loads loads_parser existing_entries new_bib_str =
     (case loads new_bib_str of
        Some new_entries \<Rightarrow> merge_entries existing_entries new_entries
      | None \<Rightarrow>
         (case loads_parser new_bib_str of
            Some new_entries \<Rightarrow> merge_entries existing_entries new_entries
          | None \<Rightarrow> Inr (existing_entries, 0, 0)))"


section \<open>Exact-duplicate filter\<close>

fun dedup_loop ::
  "entry list \<Rightarrow> (string \<times> string) set \<times> entry list \<Rightarrow> py_error + entry list"
where
  "dedup_loop [] st = Inr (snd st)"
| "dedup_loop (entry # rest) st =
     (case normalize_title (dict_get entry ''title'' (PStr '''')) of
        Inl err \<Rightarrow> Inl err
      | Inr norm_title \<Rightarrow>
          let norm_id = normalize_id (dict_get entry ''ID'' (PStr ''''));
              entry_key = (norm_title, norm_id)
          in if entry_key \<notin> fst st
             then dedup_loop rest (insert entry_key (fst st), snd st @ [entry])
             else dedup_loop rest st)"

definition remove_exact_duplicates :: "entry list \<Rightarrow> py_error + entry list" where
  "remove_exact_duplicates entries = dedup_loop entries ({}, [])"


section \<open>Similarity grouper\<close>

fun id_map :: "entry list \<Rightarrow> (string, entry) dict \<Rightarrow> (string, entry) dict" where
  \<comment> \<open>\<^verbatim>\<open>{normalize_id(e.get('ID', '')): e for e in existing_entries}\<close>\<close>
  "id_map [] m = m"
| "id_map (e # es) m = id_map es (dict_set (normalize_id (dict_get e ''ID'' (PStr ''''))) e m)"

text \<open>The inner loop over \<^verbatim>\<open>enumerate(entries[i+1:], i+1)\<close>.\<close>

fun scan_later ::
  "string \<Rightarrow> string \<Rightarrow> (nat \<times> entry) list \<Rightarrow> entry list \<times> nat set \<Rightarrow>
   py_error + entry list \<times> nat set"
where
  "scan_later title1 id1 [] st = Inr st"
| "scan_later title1 id1 ((j, entry2) # rest) st =
     (if j \<in> snd st then scan_later title1 id1 rest st
      else
        (case normalize_title (dict_get entry2 ''title'' (PStr '''')) of
           Inl err \<Rightarrow> Inl err
         | Inr title2 \<Rightarrow>
             let id2 = normalize_id (dict_get entry2 ''ID'' (PStr ''''))
             in if id1 = id2 \<or> title1 = title2
                then scan_later title1 id1 rest (fst st @ [entry2], insert j (snd st))
                else scan_later title1 id1 rest st))"

text \<open>
  The test against the library. \<^verbatim>\<open>and\<close> and \<^verbatim>\<open>or\<close> evaluate from the left
  and stop as soon as the result is known; the subscripts \<^verbatim>\<open>['ID']\<close> and
  \<^verbatim>\<open>['title']\<close> raise on an entry without that key.
\<close>

definition id_clause :: "(string, entry) dict \<Rightarrow> string \<Rightarrow> entry \<Rightarrow> py_error + bool" where
  "id_clause existing_id_map id1 entry1 =
     (case map_of existing_id_map id1 of
        None \<Rightarrow> Inr False
      | Some e \<Rightarrow>
         (case dict_item e ''title'' of
            Inl err \<Rightarrow> Inl err
          | Inr t \<Rightarrow> Inr (t = dict_get entry1 ''title'' (PStr ''''))))"

definition exact_match ::
  "(string, entry) dict \<Rightarrow> (string, entry) dict \<Rightarrow> string \<Rightarrow> string \<Rightarrow> entry \<Rightarrow> py_error + bool"
where
  "exact_match existing_title_map existing_id_map title1 id1 entry1 =
     (case map_of existing_title_map title1 of
        None \<Rightarrow> id_clause existing_id_map id1 entry1
      | Some e \<Rightarrow>
         (case dict_item e ''ID'' of
            Inl err \<Rightarrow> Inl err
          | Inr i \<Rightarrow>
              if i = dict_get entry1 ''ID'' (PStr '''') then Inr True
              else id_clause existing_id_map id1 entry1))"

text \<open>
  The outer loop over \<^verbatim>\<open>enumerate(entries)\<close>; its state is
  \<^verbatim>\<open>similar_groups\<close> with \<^verbatim>\<open>processed\<close>.
\<close>

fun group_loop ::
  "entry list \<Rightarrow> (string, entry) dict \<Rightarrow> (string, entry) dict \<Rightarrow> (nat \<times> entry) list \<Rightarrow>
   entry list list \<times> nat set \<Rightarrow> py_error + entry list list \<times> nat set"
where
  "group_loop entries tm im [] st = Inr st"
| "group_loop entries tm im ((i, entry1) # rest) st =
     (if i \<in> snd st then group_loop entries tm im rest st
      else
        (case normalize_title (dict_get entry1 ''title'' (PStr '''')) of
           Inl err \<Rightarrow> Inl err
         | Inr title1 \<Rightarrow>
             let id1 = normalize_id (dict_get entry1 ''ID'' (PStr ''''))
             in (case scan_later title1 id1 (enumerate (i + 1) (drop (i + 1) entries))
                        ([entry1], insert i (snd st)) of
                   Inl err \<Rightarrow> Inl err
                 | Inr (similar_group, processed) \<Rightarrow>
                    (case exact_match tm im title1 id1 entry1 of
                       Inl err \<Rightarrow> Inl err
                     | Inr True \<Rightarrow> group_loop entries tm im rest (fst st, processed)
                     | Inr False \<Rightarrow>
                         if length similar_group > 1
                         then group_loop entries tm im rest (fst st @ [similar_group], processed)
                         else group_loop entries tm im rest (fst st, processed)))))"

definition find_similar_entries :: "entry list \<Rightarrow> entry list \<Rightarrow> py_error + entry list list" where
  "find_similar_entries entries existing_entries =
     (case title_map existing_entries [] of
        Inl err \<Rightarrow> Inl err
      | Inr existing_title_map \<Rightarrow>
          let existing_id_map = id_map existing_entries []
          in (case group_loop entries existing_title_map existing_id_map
                     (enumerate 0 entries) ([], {}) of
                Inl err \<Rightarrow> Inl err
              | Inr (similar_groups, processed) \<Rightarrow> Inr similar_groups))"


section \<open>Conflict resolver: the batch put together on confirmation\<close>

text \<open>
  The branch of \<^verbatim>\<open>show_conflict_resolution\<close> under the button
  \<^verbatim>\<open>Continue Import\<close>. The selections are stored under the key
  \<^verbatim>\<open>group_i_selection\<close> of group \<^verbatim>\<open>i\<close>; the model keys them by \<^verbatim>\<open>i\<close>.
\<close>

fun collect_selected ::
  "(nat \<times> entry list) list \<Rightarrow> (nat \<rightharpoonup> int) \<Rightarrow> entry list \<Rightarrow> py_error + entry list"
where
  "collect_selected [] conflict_selections resolved_entries = Inr resolved_entries"
| "collect_selected ((i, grp) # rest) conflict_selections resolved_entries =
     (let selected_idx = (case conflict_selections i of Some k \<Rightarrow> k | None \<Rightarrow> 0)
      in case list_item grp selected_idx of
           Inl err \<Rightarrow> Inl err
         | Inr selected_entry \<Rightarrow>
             collect_selected rest conflict_selections (resolved_entries @ [selected_entry]))"

definition conflict_ids :: "entry list list \<Rightarrow> pyval set" where
  "conflict_ids similar_groups =
     (\<Union>grp \<in> set similar_groups. (\<lambda>entry. dict_get entry ''ID'' (PStr '''')) ` set grp)"

definition continue_import ::
  "entry list list \<Rightarrow> (nat \<rightharpoonup> int) \<Rightarrow> entry list \<Rightarrow> py_error + entry list"
where
  "continue_import similar_groups conflict_selections all_new_entries =
     (case collect_selected (enumerate 0 similar_groups) conflict_selections [] of
        Inl err \<Rightarrow> Inl err
      | Inr resolved_entries \<Rightarrow>
          Inr (resolved_entries @
               filter (\<lambda>e. dict_get e ''ID'' (PStr '''') \<notin> conflict_ids similar_groups)
                 all_new_entries))"


section \<open>Notions used to state the properties\<close>

abbreviation get_title :: "entry \<Rightarrow> pyval" where
  "get_title e \<equiv> dict_get e ''title'' (PStr '''')"

abbreviation get_ID :: "entry \<Rightarrow> pyval" where
  "get_ID e \<equiv> dict_get e ''ID'' (PStr '''')"

text \<open>
  The derived key \<^verbatim>\<open>normTitle\<close> of the data model: the title lower-cased with
  everything but letters and digits removed, the empty string for a record without title.
\<close>

definition normTitle :: "entry \<Rightarrow> string" where
  "normTitle e =
     (case map_of e ''title'' of Some (PStr s) \<Rightarrow> re_sub_non_alnum (py_lower s) | _ \<Rightarrow> [])"

definition normId :: "entry \<Rightarrow> string" where
  "normId e = normalize_id (get_ID e)"

definition str_title :: "entry \<Rightarrow> bool" where
  \<comment> \<open>the title, when there is one, is a string\<close>
  "str_title e = (map_of e ''title'' \<noteq> Some PNone)"

definition keyed :: "(string, entry) dict \<Rightarrow> bool" where
  \<comment> \<open>the keys are distinct and every entry is stored under its normalized title\<close>
  "keyed m =
     (distinct (map fst m) \<and> (\<forall>p \<in> set m. normalize_title (get_title (snd p)) = Inr (fst p)))"

definition covered :: "(string, entry) dict \<Rightarrow> entry \<Rightarrow> bool" where
  \<comment> \<open>the dictionary holds, under the title of \<open>e\<close>, a record with at least as many fields\<close>
  "covered m e = (py_truthy (get_title e) \<longrightarrow>
     (\<exists>stored. map_of m (normTitle e) = Some stored \<and> length e \<le> length stored))"

definition grows :: "(string, entry) dict \<Rightarrow> (string, entry) dict \<Rightarrow> bool" where
  "grows m m' = (\<forall>k stored. map_of m k = Some stored \<longrightarrow>
     (\<exists>stored'. map_of m' k = Some stored' \<and> length stored \<le> length stored'))"

text \<open>A parser that knows one text, for the examples.\<close>

definition demo_text :: string where
  "demo_text = ''@article{k1, title={Deep Learning}, year={2015}} @misc{k2, note={n}}''"

definition demo_loads :: "string \<Rightarrow> entry list option" where
  "demo_loads s =
     (if s = demo_text
      then Some [[(''ENTRYTYPE'', PStr ''article''), (''ID'', PStr ''k1''),
                  (''title'', PStr ''Deep Learning''), (''year'', PStr ''2015'')],
                 [(''ENTRYTYPE'', PStr ''misc''), (''ID'', PStr ''k2''), (''note'', PStr ''n'')]]
      else None)"

definition norm_pair :: "entry \<Rightarrow> string \<times> string" where
  "norm_pair e = (normTitle e, normId e)"

definition first_seen :: "(string \<times> string) set \<Rightarrow> entry list \<Rightarrow> nat set" where
  "first_seen seen es =
     {i. i < length es \<and> norm_pair (es ! i) \<notin> seen
         \<and> (\<forall>j < i. norm_pair (es ! j) \<noteq> norm_pair (es ! i))}"

definition selected_idx :: "(nat \<rightharpoonup> int) \<Rightarrow> nat \<Rightarrow> int" where
  "selected_idx conflict_selections i = (case conflict_selections i of Some k \<Rightarrow> k | None \<Rightarrow> 0)"

text \<open>
  The grouping in the words of the specification, to compare the index loop with. Two
  records are similar when their normalized \<^verbatim>\<open>ID\<close>s or their normalized titles
  agree. The first record not yet processed starts a group and takes with it every later
  record not yet processed that is similar to it; what is left is scanned the same way. A
  group is kept when it has at least two members and its anchor is not reconciled with
  the library.
\<close>

definition similar :: "entry \<Rightarrow> entry \<Rightarrow> bool" where
  "similar r r2 = (normId r = normId r2 \<or> normTitle r = normTitle r2)"

function anchor_groups :: "(entry \<Rightarrow> bool) \<Rightarrow> entry list \<Rightarrow> entry list list" where
  "anchor_groups reconciled [] = []"
| "anchor_groups reconciled (r # later) =
     (if 2 \<le> length (r # filter (similar r) later) \<and> \<not> reconciled r
      then (r # filter (similar r) later)
             # anchor_groups reconciled (filter (\<lambda>r2. \<not> similar r r2) later)
      else anchor_groups reconciled (filter (\<lambda>r2. \<not> similar r r2) later))"
  by pat_completeness auto
termination
  by (relation "measure (\<lambda>p. length (snd p))") (auto simp: less_Suc_eq_le)

text \<open>
  An anchor is reconciled with the library when the existing record found under its
  normalized title has its raw \<^verbatim>\<open>ID\<close>, or the existing record found under its
  normalized \<^verbatim>\<open>ID\<close> has its raw title. \<open>reconciled_last\<close> takes the record the
  dictionaries of the code hold, the last one with that key; \<open>reconciled_any\<close> asks
  for some existing record, as the specification words it.
\<close>

definition last_with :: "('a \<Rightarrow> bool) \<Rightarrow> 'a list \<Rightarrow> 'a option" where
  "last_with P xs = find P (rev xs)"

definition reconciled_last :: "entry list \<Rightarrow> entry \<Rightarrow> bool" where
  "reconciled_last existing r =
     ((case last_with (\<lambda>e. normTitle e = normTitle r) existing of
         None \<Rightarrow> False
       | Some e \<Rightarrow> map_of e ''ID'' = Some (get_ID r))
      \<or> (case last_with (\<lambda>e. normId e = normId r) existing of
         None \<Rightarrow> False
       | Some e \<Rightarrow> map_of e ''title'' = Some (get_title r)))"

definition reconciled_any :: "entry list \<Rightarrow> entry \<Rightarrow> bool" where
  "reconciled_any existing r =
     ((\<exists>e \<in> set existing. normTitle e = normTitle r \<and> map_of e ''ID'' = Some (get_ID r))
      \<or> (\<exists>e \<in> set existing. normId e = normId r \<and> map_of e ''title'' = Some (get_title r)))"

definition has_keys :: "entry \<Rightarrow> bool" where
  "has_keys e = (map_of e ''title'' \<noteq> None \<and> map_of e ''ID'' \<noteq> None)"

definition unproc :: "nat set \<Rightarrow> (nat \<times> entry) list \<Rightarrow> entry list" where
  "unproc P ps = map snd (filter (\<lambda>p. fst p \<notin> P) ps)"

definition matches :: "string \<Rightarrow> string \<Rightarrow> entry \<Rightarrow> bool" where
  "matches title1 id1 e2 = (id1 = normId e2 \<or> title1 = normTitle e2)"


section \<open>Dictionaries\<close>

lemma map_of_dict_set: "map_of (dict_set k v d) = (map_of d)(k \<mapsto> v)"
  by (induction d) (auto simp: fun_eq_iff)

lemma keys_dict_set:
  "map fst (dict_set k v d) = (if k \<in> fst ` set d then map fst d else map fst d @ [k])"
  by (induction d) auto

lemma dict_set_fresh: "k \<notin> fst ` set d \<Longrightarrow> dict_set k v d = d @ [(k, v)]"
  by (induction d) auto

lemma set_dict_set: "set (dict_set k v d) \<subseteq> insert (k, v) (set d)"
  by (induction d) auto

lemma values_dict_set: "snd ` set (dict_set k v d) \<subseteq> insert v (snd ` set d)"
  by (induction d) auto

lemma length_dict_set: "length d \<le> length (dict_set k v d)"
  by (induction d) auto

lemma get_title_set_ID [simp]: "map_of (dict_set ''ID'' v e) ''title'' = map_of e ''title''"
  by (simp add: map_of_dict_set)


section \<open>The normalizer\<close>



lemma normalize_title_code:
  "normalize_title (get_title e) = Inr k \<longleftrightarrow> str_title e \<and> k = normTitle e"
  by (auto simp: normalize_title_def dict_get_def normTitle_def str_title_def
      split: option.splits pyval.splits)

lemma truthy_title_norm:
  "py_truthy (get_title e) \<Longrightarrow> normalize_title (get_title e) = Inr (normTitle e)"
  by (auto simp: py_truthy_def normalize_title_def dict_get_def normTitle_def
      split: option.splits pyval.splits)





section \<open>The merge engine\<close>

lemma merge_loop_filter:
  "merge_loop (filter (\<lambda>e. py_truthy (get_title e)) batch) st = merge_loop batch st"
  by (induction batch arbitrary: st) (auto simp: merge_entry_def split: sum.splits prod.splits)

lemma keyed_Nil: "keyed []"
  by (simp add: keyed_def)

lemma keyed_dict_set:
  assumes "keyed m" and "normalize_title (get_title e) = Inr k"
  shows "keyed (dict_set k e m)"
proof -
  have "distinct (map fst (dict_set k e m))"
    using assms(1) by (auto simp: keyed_def keys_dict_set)
  moreover have "\<forall>p \<in> set (dict_set k e m). normalize_title (get_title (snd p)) = Inr (fst p)"
    using assms set_dict_set [of k e m] by (auto simp: keyed_def)
  ultimately show ?thesis by (simp add: keyed_def)
qed

lemma title_map_keyed: "keyed m \<Longrightarrow> title_map es m = Inr m' \<Longrightarrow> keyed m'"
  by (induction es arbitrary: m) (auto split: sum.splits intro: keyed_dict_set)

lemma merge_entry_keyed:
  assumes "keyed m" and "merge_entry e (m, a, u) = Inr (m', a', u')"
  shows "keyed m'"
proof -
  have "normalize_title (get_title (dict_set ''ID'' v e)) = normalize_title (get_title e)" for v
    by (simp add: dict_get_def)
  then show ?thesis
    using assms
    by (auto simp: merge_entry_def Let_def split: if_splits sum.splits option.splits
        intro!: keyed_dict_set)
qed

lemma merge_loop_keyed:
  "keyed (fst st) \<Longrightarrow> merge_loop batch st = Inr st' \<Longrightarrow> keyed (fst st')"
proof (induction batch arbitrary: st)
  case Nil
  then show ?case by simp
next
  case (Cons e batch)
  then obtain st1 where s1: "merge_entry e st = Inr st1" and s2: "merge_loop batch st1 = Inr st'"
    by (auto split: sum.splits)
  from s1 Cons.prems(1) have "keyed (fst st1)"
    using merge_entry_keyed [of "fst st" e "fst (snd st)" "snd (snd st)" "fst st1" "fst (snd st1)" "snd (snd st1)"]
    by simp
  with s2 show ?case by (rule Cons.IH [rotated])
qed

lemma keyed_titles: "keyed m \<Longrightarrow> map normTitle (map snd m) = map fst m"
  by (induction m) (auto simp: keyed_def normalize_title_code)

lemma title_map_rebuild: "keyed (m1 @ m2) \<Longrightarrow> title_map (map snd m2) m1 = Inr (m1 @ m2)"
proof (induction m2 arbitrary: m1)
  case Nil
  then show ?case by simp
next
  case (Cons p m2)
  have k: "normalize_title (get_title (snd p)) = Inr (fst p)"
    using Cons.prems by (simp add: keyed_def)
  have "fst p \<notin> fst ` set m1"
    using Cons.prems by (auto simp: keyed_def)
  then have "dict_set (fst p) (snd p) m1 = m1 @ [p]"
    by (simp add: dict_set_fresh)
  moreover have "title_map (map snd m2) (m1 @ [p]) = Inr ((m1 @ [p]) @ m2)"
    using Cons.prems by (intro Cons.IH) simp
  ultimately show ?case using k by simp
qed

lemma grows_refl: "grows m m"
  by (simp add: grows_def)

lemma grows_trans: "grows m1 m2 \<Longrightarrow> grows m2 m3 \<Longrightarrow> grows m1 m3"
  unfolding grows_def by (meson le_trans)

lemma covered_grows: "covered m e \<Longrightarrow> grows m m' \<Longrightarrow> covered m' e"
  unfolding covered_def grows_def by (meson le_trans)

lemma merge_entry_noop: "covered m e \<Longrightarrow> merge_entry e (m, a, u) = Inr (m, a, u)"
  by (cases "py_truthy (get_title e)")
    (auto simp: merge_entry_def covered_def truthy_title_norm dict_len_def)

lemma merge_loop_noop:
  "\<forall>e \<in> set batch. covered m e \<Longrightarrow> merge_loop batch (m, a, u) = Inr (m, a, u)"
  by (induction batch) (auto simp: merge_entry_noop)

lemma merge_entry_grows:
  assumes "merge_entry e (m, a, u) = Inr (m', a', u')"
  shows "grows m m' \<and> covered m' e"
proof (cases "py_truthy (get_title e)")
  case False
  with assms show ?thesis by (auto simp: merge_entry_def covered_def grows_refl)
next
  case True
  note nt = truthy_title_norm [OF True]
  show ?thesis
  proof (cases "map_of m (normTitle e)")
    case None
    with assms True nt have m': "m' = dict_set (normTitle e) e m"
      by (auto simp: merge_entry_def)
    have "grows m m'"
      using None unfolding grows_def m' map_of_dict_set by auto
    moreover have "covered m' e"
      unfolding covered_def m' map_of_dict_set by simp
    ultimately show ?thesis by simp
  next
    case (Some stored)
    show ?thesis
    proof (cases "length e > length stored")
      case False
      with assms True nt Some have "m' = m"
        by (auto simp: merge_entry_def dict_len_def)
      with False Some show ?thesis
        by (auto simp: covered_def grows_refl)
    next
      case longer: True
      define e' where "e' = dict_set ''ID'' (dict_get stored ''ID'' (dict_get e ''ID'' PNone)) e"
      from assms True nt Some longer have m': "m' = dict_set (normTitle e) e' m"
        by (auto simp: merge_entry_def dict_len_def Let_def e'_def)
      have len: "length e \<le> length e'"
        unfolding e'_def by (rule length_dict_set)
      have "grows m m'"
        using Some longer len unfolding grows_def m' map_of_dict_set by auto
      moreover have "covered m' e"
        using len unfolding covered_def m' map_of_dict_set by simp
      ultimately show ?thesis by simp
    qed
  qed
qed

lemma merge_loop_grows:
  "merge_loop batch (m, a, u) = Inr (m', a', u') \<Longrightarrow>
   grows m m' \<and> (\<forall>e \<in> set batch. covered m' e)"
proof (induction batch arbitrary: m a u)
  case Nil
  then show ?case by (simp add: grows_refl)
next
  case (Cons e batch)
  then obtain m1 a1 u1 where s1: "merge_entry e (m, a, u) = Inr (m1, a1, u1)"
    and s2: "merge_loop batch (m1, a1, u1) = Inr (m', a', u')"
    by (auto split: sum.splits)
  from merge_entry_grows [OF s1] have g1: "grows m m1" and c1: "covered m1 e" by simp_all
  from Cons.IH [OF s2] have g2: "grows m1 m'" and c2: "\<forall>e \<in> set batch. covered m' e" by simp_all
  from g1 g2 have "grows m m'" by (rule grows_trans)
  moreover from c1 g2 have "covered m' e" by (rule covered_grows)
  ultimately show ?case using c2 by simp
qed

lemma merge_entries_keyed:
  assumes "merge_entries existing batch = Inr (merged, a, u)"
  obtains m where "keyed m" and "merged = map snd m" and "\<forall>e \<in> set batch. covered m e"
proof -
  from assms obtain m0 m where t: "title_map existing [] = Inr m0"
    and l: "merge_loop batch (m0, 0, 0) = Inr (m, a, u)" and mg: "merged = map snd m"
    by (auto simp: merge_entries_def dict_values_def split: sum.splits)
  from t have "keyed m0" using title_map_keyed [OF keyed_Nil] by blast
  with l have "keyed m" using merge_loop_keyed [of "(m0, 0, 0)" batch "(m, a, u)"] by simp
  moreover from merge_loop_grows [OF l] have "\<forall>e \<in> set batch. covered m e" by simp
  ultimately show ?thesis using mg that by blast
qed

lemma merge_entries_idem:
  assumes "merge_entries existing batch = Inr (merged, a, u)"
  shows "merge_entries merged batch = Inr (merged, 0, 0)"
proof -
  from assms obtain m where k: "keyed m" and mg: "merged = map snd m"
    and c: "\<forall>e \<in> set batch. covered m e"
    by (rule merge_entries_keyed)
  from k have "title_map merged [] = Inr m"
    using title_map_rebuild [of "[]" m] by (simp add: mg)
  moreover from c have "merge_loop batch (m, 0, 0) = Inr (m, 0, 0)"
    by (rule merge_loop_noop)
  ultimately show ?thesis by (simp add: merge_entries_def dict_values_def mg)
qed

lemma merge_entries_distinct:
  assumes "merge_entries existing batch = Inr (merged, a, u)"
  shows "distinct (map normTitle merged) \<and>
    (\<forall>e \<in> set merged. normalize_title (get_title e) = Inr (normTitle e))"
proof -
  from assms obtain m where k: "keyed m" and mg: "merged = map snd m"
    by (rule merge_entries_keyed)
  from k have "map normTitle merged = map fst m" unfolding mg by (rule keyed_titles)
  moreover from k have "distinct (map fst m)" by (simp add: keyed_def)
  moreover from k have "\<forall>e \<in> set merged. normalize_title (get_title e) = Inr (normTitle e)"
    by (auto simp: keyed_def mg normalize_title_code)
  ultimately show ?thesis by simp
qed

lemma title_map_values: "title_map es m = Inr m' \<Longrightarrow> snd ` set m' \<subseteq> snd ` set m \<union> set es"
proof (induction es arbitrary: m)
  case Nil
  then show ?case by simp
next
  case (Cons e es)
  then obtain k where k: "normalize_title (get_title e) = Inr k"
    and r: "title_map es (dict_set k e m) = Inr m'"
    by (auto split: sum.splits)
  from Cons.IH [OF r] values_dict_set [of k e m] show ?case by auto
qed

lemma merge_entry_values:
  assumes "merge_entry e (m, a, u) = Inr (m', a', u')" and "r \<in> snd ` set m'"
  shows "r \<in> snd ` set m \<or> py_truthy (get_title r)"
proof -
  have t: "get_title (dict_set ''ID'' v e) = get_title e" for v
    by (simp add: dict_get_def)
  from assms(1) consider "m' = m"
    | k where "py_truthy (get_title e)" "m' = dict_set k e m"
    | k v where "py_truthy (get_title e)" "m' = dict_set k (dict_set ''ID'' v e) m"
    by (auto simp: merge_entry_def Let_def split: if_splits sum.splits option.splits)
  then show ?thesis
  proof cases
    case 1
    with assms(2) show ?thesis by simp
  next
    case 2
    with assms(2) values_dict_set [of k e m] show ?thesis by auto
  next
    case 3
    with assms(2) values_dict_set [of k "dict_set ''ID'' v e" m] t [of v] show ?thesis by auto
  qed
qed

lemma merge_loop_values:
  "merge_loop batch (m, a, u) = Inr (m', a', u') \<Longrightarrow> r \<in> snd ` set m' \<Longrightarrow>
   r \<in> snd ` set m \<or> py_truthy (get_title r)"
proof (induction batch arbitrary: m a u)
  case Nil
  then show ?case by simp
next
  case (Cons e batch)
  then obtain m1 a1 u1 where s1: "merge_entry e (m, a, u) = Inr (m1, a1, u1)"
    and s2: "merge_loop batch (m1, a1, u1) = Inr (m', a', u')"
    by (auto split: sum.splits)
  from Cons.IH [OF s2 Cons.prems(2)] merge_entry_values [OF s1] show ?case by blast
qed

lemma merge_entries_untitled:
  assumes "merge_entries existing batch = Inr (merged, a, u)" and "r \<in> set merged"
    and "\<not> py_truthy (get_title r)"
  shows "r \<in> set existing"
proof -
  from assms(1) obtain m0 m where t: "title_map existing [] = Inr m0"
    and l: "merge_loop batch (m0, 0, 0) = Inr (m, a, u)" and mg: "merged = map snd m"
    by (auto simp: merge_entries_def dict_values_def split: sum.splits)
  from assms(2) mg have "r \<in> snd ` set m" by simp
  with merge_loop_values [OF l] assms(3) have "r \<in> snd ` set m0" by blast
  with title_map_values [OF t] show ?thesis by auto
qed

lemma merge_entries_filter:
  "merge_entries existing (filter (\<lambda>e. py_truthy (get_title e)) batch) = merge_entries existing batch"
  by (simp add: merge_entries_def merge_loop_filter split: sum.splits)

lemmas eval_defs = merge_bib_data_def demo_loads_def demo_text_def merge_entries_def merge_entry_def
     normalize_title_def dict_get_def py_truthy_def dict_len_def dict_values_def
     lower_char_def ascii_upper_def ascii_lower_def ascii_digits_def

text \<open>
  Claim C2. For every existing collection and every text that one of the two parser calls
  accepts, the collection that \<^verbatim>\<open>merge_bib_data\<close> returns holds no two records
  with the same normalized title, where the normalized title of a record is
  \<^verbatim>\<open>normalize_title\<close> of its title, the empty string standing for a missing title:
  normalizing succeeds on every returned record, and the list of the keys is distinct.
\<close>

theorem merged_titles_unique:
  assumes "merge_bib_data loads loads_parser existing s = Inr (merged, a, u)"
    and "loads s \<noteq> None \<or> loads_parser s \<noteq> None"
  shows "\<exists>ks. map (\<lambda>e. normalize_title (dict_get e ''title'' (PStr ''''))) merged = map Inr ks
    \<and> distinct ks"
proof -
  from assms obtain batch where "merge_entries existing batch = Inr (merged, a, u)"
    by (auto simp: merge_bib_data_def split: option.splits)
  from merge_entries_distinct [OF this]
  have "map (\<lambda>e. normalize_title (get_title e)) merged = map Inr (map normTitle merged)"
    and "distinct (map normTitle merged)"
    by simp_all
  then show ?thesis by blast
qed

theorem merged_titles_unique_witness:
  "merge_bib_data demo_loads demo_loads
     [[(''ID'', PStr ''a''), (''title'', PStr ''Deep Learning'')],
      [(''ID'', PStr ''b''), (''title'', PStr ''deep-learning'')],
      [(''ID'', PStr ''c''), (''title'', PStr ''Other'')]] demo_text
   = Inr ([[(''ENTRYTYPE'', PStr ''article''), (''ID'', PStr ''b''),
            (''title'', PStr ''Deep Learning''), (''year'', PStr ''2015'')],
           [(''ID'', PStr ''c''), (''title'', PStr ''Other'')]], 0, 1)
   \<and> demo_loads demo_text \<noteq> None
   \<and> (\<exists>ks. map (\<lambda>e. normalize_title (dict_get e ''title'' (PStr '''')))
              [[(''ENTRYTYPE'', PStr ''article''), (''ID'', PStr ''b''),
                (''title'', PStr ''Deep Learning''), (''year'', PStr ''2015'')],
               [(''ID'', PStr ''c''), (''title'', PStr ''Other'')]] = map Inr ks
          \<and> distinct ks)"
proof -
  have h: "merge_bib_data demo_loads demo_loads
     [[(''ID'', PStr ''a''), (''title'', PStr ''Deep Learning'')],
      [(''ID'', PStr ''b''), (''title'', PStr ''deep-learning'')],
      [(''ID'', PStr ''c''), (''title'', PStr ''Other'')]] demo_text
   = Inr ([[(''ENTRYTYPE'', PStr ''article''), (''ID'', PStr ''b''),
            (''title'', PStr ''Deep Learning''), (''year'', PStr ''2015'')],
           [(''ID'', PStr ''c''), (''title'', PStr ''Other'')]], 0, 1)"
    by (simp add: eval_defs)
  have p: "demo_loads demo_text \<noteq> None"
    by (simp add: demo_loads_def)
  from p have p': "demo_loads demo_text \<noteq> None \<or> demo_loads demo_text \<noteq> None" by simp
  from h p merged_titles_unique [OF h p'] show ?thesis by blast
qed

text \<open>
  Claim C3. If merging a text into a collection returns \<open>(merged, added, updated)\<close>,
  then merging the same text into \<open>merged\<close> returns \<open>merged\<close> again, with both
  counts zero. (This holds for every text, parseable or not.)
\<close>

theorem merge_idempotent:
  assumes "merge_bib_data loads loads_parser existing s = Inr (merged, a, u)"
  shows "merge_bib_data loads loads_parser merged s = Inr (merged, 0, 0)"
proof (cases "loads s")
  case (Some batch)
  with assms have "merge_entries existing batch = Inr (merged, a, u)"
    by (simp add: merge_bib_data_def)
  then have "merge_entries merged batch = Inr (merged, 0, 0)"
    by (rule merge_entries_idem)
  with Some show ?thesis by (simp add: merge_bib_data_def)
next
  case None
  show ?thesis
  proof (cases "loads_parser s")
    case (Some batch)
    with None assms have "merge_entries existing batch = Inr (merged, a, u)"
      by (simp add: merge_bib_data_def)
    then have "merge_entries merged batch = Inr (merged, 0, 0)"
      by (rule merge_entries_idem)
    with None Some show ?thesis by (simp add: merge_bib_data_def)
  next
    case no: None
    with None assms show ?thesis by (simp add: merge_bib_data_def)
  qed
qed

theorem merge_idempotent_witness:
  "merge_bib_data demo_loads demo_loads
     [[(''ID'', PStr ''old''), (''title'', PStr ''deep learning!'')]] demo_text
   = Inr ([[(''ENTRYTYPE'', PStr ''article''), (''ID'', PStr ''old''),
            (''title'', PStr ''Deep Learning''), (''year'', PStr ''2015'')]], 0, 1)
   \<and> merge_bib_data demo_loads demo_loads
     [[(''ENTRYTYPE'', PStr ''article''), (''ID'', PStr ''old''),
       (''title'', PStr ''Deep Learning''), (''year'', PStr ''2015'')]] demo_text
   = Inr ([[(''ENTRYTYPE'', PStr ''article''), (''ID'', PStr ''old''),
            (''title'', PStr ''Deep Learning''), (''year'', PStr ''2015'')]], 0, 0)"
proof -
  have h: "merge_bib_data demo_loads demo_loads
     [[(''ID'', PStr ''old''), (''title'', PStr ''deep learning!'')]] demo_text
   = Inr ([[(''ENTRYTYPE'', PStr ''article''), (''ID'', PStr ''old''),
            (''title'', PStr ''Deep Learning''), (''year'', PStr ''2015'')]], 0, 1)"
    by (simp add: eval_defs)
  from h merge_idempotent [OF h] show ?thesis by blast
qed

text \<open>
  Claim C7. When both calls of the parser raise on the incoming text, the merge returns
  the existing collection as it was given, with \<^verbatim>\<open>added = 0\<close> and
  \<^verbatim>\<open>updated = 0\<close>: nothing of the batch is merged, and nothing is raised.
\<close>

theorem merge_parse_failure:
  "loads s = None \<Longrightarrow> loads_parser s = None \<Longrightarrow>
   merge_bib_data loads loads_parser existing s = Inr (existing, 0, 0)"
  by (simp add: merge_bib_data_def)

theorem merge_parse_failure_witness:
  "demo_loads ''not bibtex'' = None
   \<and> merge_bib_data demo_loads demo_loads
        [[(''ID'', PStr ''a''), (''title'', PStr ''T'')]] ''not bibtex''
      = Inr ([[(''ID'', PStr ''a''), (''title'', PStr ''T'')]], 0, 0)"
proof -
  have h: "demo_loads ''not bibtex'' = None"
    by (simp add: demo_loads_def demo_text_def)
  from h merge_parse_failure [of demo_loads "''not bibtex''" demo_loads, OF h h] show ?thesis by simp
qed

text \<open>
  Claim C8. A record of the batch whose title is absent or empty is dropped before any
  comparison. Removing all such records from what the parser returns changes neither the
  merged collection nor the two counts, whatever their other fields are; and a record
  without title in the merged collection is never one that came in with the batch: it was
  in the existing collection already.
\<close>

theorem untitled_dropped:
  "merge_bib_data loads loads_parser existing s =
     merge_bib_data
       (\<lambda>t. map_option (filter (\<lambda>e. py_truthy (dict_get e ''title'' (PStr '''')))) (loads t))
       (\<lambda>t. map_option (filter (\<lambda>e. py_truthy (dict_get e ''title'' (PStr '''')))) (loads_parser t))
       existing s
   \<and> (merge_bib_data loads loads_parser existing s = Inr (merged, a, u) \<longrightarrow> r \<in> set merged \<longrightarrow>
        \<not> py_truthy (dict_get r ''title'' (PStr '''')) \<longrightarrow> r \<in> set existing)"
proof -
  have "merge_bib_data loads loads_parser existing s =
     merge_bib_data
       (\<lambda>t. map_option (filter (\<lambda>e. py_truthy (get_title e))) (loads t))
       (\<lambda>t. map_option (filter (\<lambda>e. py_truthy (get_title e))) (loads_parser t))
       existing s"
    by (simp add: merge_bib_data_def merge_entries_filter split: option.splits)
  moreover have "r \<in> set existing"
    if "merge_bib_data loads loads_parser existing s = Inr (merged, a, u)" "r \<in> set merged"
      "\<not> py_truthy (get_title r)"
    using that merge_entries_untitled [of existing _ merged a u r]
    by (auto simp: merge_bib_data_def split: option.splits)
  ultimately show ?thesis by blast
qed

theorem untitled_dropped_witness:
  "merge_bib_data demo_loads demo_loads [[(''ID'', PStr ''z''), (''note'', PStr ''n'')]] demo_text
   = Inr ([[(''ID'', PStr ''z''), (''note'', PStr ''n'')],
           [(''ENTRYTYPE'', PStr ''article''), (''ID'', PStr ''k1''),
            (''title'', PStr ''Deep Learning''), (''year'', PStr ''2015'')]], 1, 0)
   \<and> \<not> py_truthy (dict_get [(''ID'', PStr ''z''), (''note'', PStr ''n'')] ''title'' (PStr ''''))
   \<and> [(''ID'', PStr ''z''), (''note'', PStr ''n'')]
       \<in> set [[(''ID'', PStr ''z''), (''note'', PStr ''n'')],
           [(''ENTRYTYPE'', PStr ''article''), (''ID'', PStr ''k1''),
            (''title'', PStr ''Deep Learning''), (''year'', PStr ''2015'')]]
   \<and> [(''ID'', PStr ''z''), (''note'', PStr ''n'')] \<in> set [[(''ID'', PStr ''z''), (''note'', PStr ''n'')]]"
proof -
  have h: "merge_bib_data demo_loads demo_loads [[(''ID'', PStr ''z''), (''note'', PStr ''n'')]] demo_text
   = Inr ([[(''ID'', PStr ''z''), (''note'', PStr ''n'')],
           [(''ENTRYTYPE'', PStr ''article''), (''ID'', PStr ''k1''),
            (''title'', PStr ''Deep Learning''), (''year'', PStr ''2015'')]], 1, 0)"
    by (simp add: eval_defs)
  have u: "\<not> py_truthy (dict_get [(''ID'', PStr ''z''), (''note'', PStr ''n'')] ''title'' (PStr ''''))"
    by (simp add: dict_get_def py_truthy_def)
  from h u untitled_dropped [of demo_loads demo_loads "[[(''ID'', PStr ''z''), (''note'', PStr ''n'')]]"
      demo_text _ 1 0 "[(''ID'', PStr ''z''), (''note'', PStr ''n'')]"]
  show ?thesis by simp
qed

subsection \<open>One step of the merge\<close>





section \<open>The exact-duplicate filter and the reassembled batch\<close>

lemma first_seen_Cons:
  "{j. Suc j \<in> first_seen seen (x # es)} = first_seen (insert (norm_pair x) seen) es"
  by (auto simp: first_seen_def All_less_Suc2)

lemma first_seen_0: "0 \<in> first_seen seen (x # es) \<longleftrightarrow> norm_pair x \<notin> seen"
  by (simp add: first_seen_def)

lemma dedup_loop_spec:
  "\<forall>e \<in> set es. str_title e \<Longrightarrow>
   dedup_loop es (seen, acc) = Inr (acc @ nths es (first_seen seen es))"
proof (induction es arbitrary: seen acc)
  case Nil
  then show ?case by simp
next
  case (Cons x es)
  from Cons.prems have nt: "normalize_title (get_title x) = Inr (normTitle x)"
    by (simp add: normalize_title_code)
  from Cons.prems have rest: "\<forall>e \<in> set es. str_title e" by simp
  show ?case
  proof (cases "norm_pair x \<in> seen")
    case True
    then have "insert (norm_pair x) seen = seen" by auto
    with True nt Cons.IH [OF rest, of seen acc] show ?thesis
      by (simp add: nths_Cons first_seen_Cons first_seen_0 norm_pair_def normId_def)
  next
    case False
    with nt Cons.IH [OF rest, of "insert (norm_pair x) seen" "acc @ [x]"] show ?thesis
      by (simp add: nths_Cons first_seen_Cons first_seen_0 norm_pair_def normId_def)
  qed
qed

text \<open>
  Claim C5. On a batch of records (titles are strings) the filter returns the records
  at the positions whose pair of normalized title and normalized \<^verbatim>\<open>ID\<close> has not
  occurred at an earlier position, in their original order: a subsequence of the batch, a
  record being kept exactly when its pair is new. Two records with empty or absent title
  and \<^verbatim>\<open>ID\<close> both have the pair of two empty strings and collapse to the first.
\<close>

theorem remove_exact_duplicates_keeps_first:
  assumes "\<forall>e \<in> set entries. str_title e"
  shows "remove_exact_duplicates entries =
           Inr (nths entries {i. i < length entries \<and>
                  (\<forall>j < i. (normTitle (entries ! j), normId (entries ! j))
                           \<noteq> (normTitle (entries ! i), normId (entries ! i)))})
     \<and> (\<exists>kept. remove_exact_duplicates entries = Inr kept \<and> subseq kept entries)
     \<and> (\<forall>e1 e2. entries = [e1, e2] \<longrightarrow>
           dict_get e1 ''title'' (PStr '''') = PStr '''' \<longrightarrow> dict_get e1 ''ID'' (PStr '''') = PStr '''' \<longrightarrow>
           dict_get e2 ''title'' (PStr '''') = PStr '''' \<longrightarrow> dict_get e2 ''ID'' (PStr '''') = PStr '''' \<longrightarrow>
           (normTitle e1, normId e1) = ('''', '''') \<and> (normTitle e2, normId e2) = ('''', '''')
           \<and> remove_exact_duplicates entries = Inr [e1])"
proof -
  have main: "remove_exact_duplicates entries = Inr (nths entries (first_seen {} entries))"
    using dedup_loop_spec [OF assms, of "{}" "[]"] by (simp add: remove_exact_duplicates_def)
  have set_eq: "first_seen {} entries = {i. i < length entries \<and>
                  (\<forall>j < i. (normTitle (entries ! j), normId (entries ! j))
                           \<noteq> (normTitle (entries ! i), normId (entries ! i)))}"
    by (simp add: first_seen_def norm_pair_def)
  have sub: "subseq (nths entries (first_seen {} entries)) entries"
    unfolding subseq_conv_nths by (rule exI) (rule refl)
  have edge: "(normTitle e1, normId e1) = ('''', '''') \<and> (normTitle e2, normId e2) = ('''', '''')
           \<and> remove_exact_duplicates entries = Inr [e1]"
    if "entries = [e1, e2]" "get_title e1 = PStr ''''" "get_ID e1 = PStr ''''"
      "get_title e2 = PStr ''''" "get_ID e2 = PStr ''''" for e1 e2
  proof -
    have t: "normTitle e = ''''" if "get_title e = PStr ''''" for e
      using that by (auto simp: normTitle_def dict_get_def split: option.splits pyval.splits)
    have i: "normId e = ''''" if "get_ID e = PStr ''''" for e
      using that by (simp add: normId_def normalize_id_def py_str_def)
    from that have k: "norm_pair e1 = ('''', '''')" "norm_pair e2 = ('''', '''')"
      by (simp_all add: norm_pair_def t i)
    have "first_seen {} [e1, e2] = {0}"
      using k by (auto simp: first_seen_def less_Suc_eq)
    with main that(1) have "remove_exact_duplicates entries = Inr [e1]"
      by (simp add: nths_Cons)
    with k show ?thesis by (simp add: norm_pair_def)
  qed
  show ?thesis
  proof (intro conjI allI impI)
    show "remove_exact_duplicates entries =
           Inr (nths entries {i. i < length entries \<and>
                  (\<forall>j < i. (normTitle (entries ! j), normId (entries ! j))
                           \<noteq> (normTitle (entries ! i), normId (entries ! i)))})"
      using main set_eq by simp
    show "\<exists>kept. remove_exact_duplicates entries = Inr kept \<and> subseq kept entries"
      using main sub by (intro exI conjI)
  qed (use edge in \<open>simp_all only: prod.inject simp_thms\<close>)
qed

theorem remove_exact_duplicates_keeps_first_witness:
  "str_title [(''title'', PStr ''A''), (''ID'', PStr ''x1'')]
   \<and> str_title [(''title'', PStr ''A''), (''ID'', PStr ''x2'')]
   \<and> remove_exact_duplicates
        [[(''title'', PStr ''A''), (''ID'', PStr ''x1'')],
         [(''title'', PStr ''A''), (''ID'', PStr ''x1'')],
         [(''title'', PStr ''A''), (''ID'', PStr ''x2'')]]
      = Inr [[(''title'', PStr ''A''), (''ID'', PStr ''x1'')],
             [(''title'', PStr ''A''), (''ID'', PStr ''x2'')]]
   \<and> (\<exists>kept. remove_exact_duplicates
        [[(''title'', PStr ''A''), (''ID'', PStr ''x1'')],
         [(''title'', PStr ''A''), (''ID'', PStr ''x1'')],
         [(''title'', PStr ''A''), (''ID'', PStr ''x2'')]] = Inr kept
      \<and> subseq kept
        [[(''title'', PStr ''A''), (''ID'', PStr ''x1'')],
         [(''title'', PStr ''A''), (''ID'', PStr ''x1'')],
         [(''title'', PStr ''A''), (''ID'', PStr ''x2'')]])
   \<and> remove_exact_duplicates [[(''note'', PStr ''p'')], [(''title'', PStr ''''), (''ID'', PStr '''')]]
      = Inr [[(''note'', PStr ''p'')]]"
proof -
  have h: "\<forall>e \<in> set [[(''title'', PStr ''A''), (''ID'', PStr ''x1'')],
                 [(''title'', PStr ''A''), (''ID'', PStr ''x1'')],
                 [(''title'', PStr ''A''), (''ID'', PStr ''x2'')]]. str_title e"
    by (simp add: str_title_def)
  have ev: "remove_exact_duplicates
        [[(''title'', PStr ''A''), (''ID'', PStr ''x1'')],
         [(''title'', PStr ''A''), (''ID'', PStr ''x1'')],
         [(''title'', PStr ''A''), (''ID'', PStr ''x2'')]]
      = Inr [[(''title'', PStr ''A''), (''ID'', PStr ''x1'')],
             [(''title'', PStr ''A''), (''ID'', PStr ''x2'')]]"
    by (simp add: remove_exact_duplicates_def normalize_id_def py_str_def eval_defs)
  note sub = remove_exact_duplicates_keeps_first [OF h, THEN conjunct2, THEN conjunct1]
  have h2: "\<forall>e \<in> set [[(''note'', PStr ''p'')], [(''title'', PStr ''''), (''ID'', PStr '''')]]. str_title e"
    by (simp add: str_title_def)
  have "remove_exact_duplicates [[(''note'', PStr ''p'')], [(''title'', PStr ''''), (''ID'', PStr '''')]]
      = Inr [[(''note'', PStr ''p'')]]"
    using remove_exact_duplicates_keeps_first [OF h2, THEN conjunct2, THEN conjunct2, rule_format,
        of "[(''note'', PStr ''p'')]" "[(''title'', PStr ''''), (''ID'', PStr '''')]"]
    by (simp add: dict_get_def)
  with ev sub show ?thesis by (intro conjI) (simp_all add: str_title_def)
qed

lemma collect_selected_spec:
  assumes "\<forall>p \<in> set ps. 0 \<le> selected_idx sel (fst p) \<and> selected_idx sel (fst p) < int (length (snd p))"
  shows "collect_selected ps sel acc
         = Inr (acc @ map (\<lambda>p. snd p ! nat (selected_idx sel (fst p))) ps)"
  using assms
proof (induction ps arbitrary: acc)
  case Nil
  then show ?case by simp
next
  case (Cons p ps)
  obtain i g where p: "p = (i, g)" by (cases p)
  from Cons.prems p have r: "0 \<le> selected_idx sel i" "selected_idx sel i < int (length g)"
    by simp_all
  then have "list_item g (selected_idx sel i) = Inr (g ! nat (selected_idx sel i))"
    by (simp add: list_item_def)
  moreover have "collect_selected ps sel (acc @ [g ! nat (selected_idx sel i)])
      = Inr ((acc @ [g ! nat (selected_idx sel i)]) @ map (\<lambda>p. snd p ! nat (selected_idx sel (fst p))) ps)"
    using Cons.prems by (intro Cons.IH) simp
  ultimately show ?case by (simp add: p selected_idx_def)
qed

lemma map_enumerate_nth:
  "map f (enumerate 0 xs) = map (\<lambda>i. f (i, xs ! i)) [0..<length xs]"
  by (rule nth_equalityI) (simp_all add: nth_enumerate_eq)

lemma conflict_ids_iff:
  "v \<notin> conflict_ids groups \<longleftrightarrow> (\<forall>g \<in> set groups. \<forall>m \<in> set g. v \<noteq> get_ID m)"
  by (auto simp: conflict_ids_def)

text \<open>
  Claim C6. Given the groups, a selection that names a member of each group (a missing
  selection counts as index 0) and the filtered batch, the batch put together on
  confirmation is the chosen record of each group, in the order of the groups, followed
  by every record of the filtered batch whose raw \<^verbatim>\<open>ID\<close> differs from the raw
  \<^verbatim>\<open>ID\<close> of every member of every group.
\<close>

theorem continue_import_reassembles:
  assumes "\<forall>i < length similar_groups.
             0 \<le> (case conflict_selections i of Some k \<Rightarrow> k | None \<Rightarrow> 0)
           \<and> (case conflict_selections i of Some k \<Rightarrow> k | None \<Rightarrow> 0) < int (length (similar_groups ! i))"
  shows "continue_import similar_groups conflict_selections all_new_entries =
     Inr (map (\<lambda>i. similar_groups ! i ! nat (case conflict_selections i of Some k \<Rightarrow> k | None \<Rightarrow> 0))
            [0..<length similar_groups]
          @ filter (\<lambda>e. \<forall>g \<in> set similar_groups. \<forall>m \<in> set g.
                       dict_get e ''ID'' (PStr '''') \<noteq> dict_get m ''ID'' (PStr ''''))
              all_new_entries)"
proof -
  have "\<forall>p \<in> set (enumerate 0 similar_groups).
      0 \<le> selected_idx conflict_selections (fst p)
      \<and> selected_idx conflict_selections (fst p) < int (length (snd p))"
    using assms by (auto simp: in_set_enumerate_eq selected_idx_def)
  from collect_selected_spec [OF this, of "[]"]
  have "collect_selected (enumerate 0 similar_groups) conflict_selections []
      = Inr (map (\<lambda>i. similar_groups ! i ! nat (selected_idx conflict_selections i))
            [0..<length similar_groups])"
    by (simp add: map_enumerate_nth)
  then show ?thesis
    by (simp add: continue_import_def conflict_ids_iff selected_idx_def)
qed

theorem continue_import_reassembles_witness:
  "0 \<le> (case [0 \<mapsto> 1] (0::nat) of Some k \<Rightarrow> k | None \<Rightarrow> (0::int))
   \<and> (case [0 \<mapsto> 1] (0::nat) of Some k \<Rightarrow> k | None \<Rightarrow> (0::int))
        < int (length [[(''ID'', PStr ''a''), (''title'', PStr ''Deep Learning'')],
                    [(''ID'', PStr ''b''), (''title'', PStr ''deep learning!!'')]])
   \<and> continue_import
        [[[(''ID'', PStr ''a''), (''title'', PStr ''Deep Learning'')],
          [(''ID'', PStr ''b''), (''title'', PStr ''deep learning!!'')]]]
        [0 \<mapsto> 1]
        [[(''ID'', PStr ''a''), (''title'', PStr ''Deep Learning'')],
         [(''ID'', PStr ''b''), (''title'', PStr ''deep learning!!'')],
         [(''ID'', PStr ''c''), (''title'', PStr ''Other'')]]
      = Inr [[(''ID'', PStr ''b''), (''title'', PStr ''deep learning!!'')],
             [(''ID'', PStr ''c''), (''title'', PStr ''Other'')]]"
proof -
  have h: "\<forall>i < length [[[(''ID'', PStr ''a''), (''title'', PStr ''Deep Learning'')],
                    [(''ID'', PStr ''b''), (''title'', PStr ''deep learning!!'')]]].
       0 \<le> (case [0 \<mapsto> 1] i of Some k \<Rightarrow> k | None \<Rightarrow> (0::int))
     \<and> (case [0 \<mapsto> 1] i of Some k \<Rightarrow> k | None \<Rightarrow> 0)
        < int (length ([[[(''ID'', PStr ''a''), (''title'', PStr ''Deep Learning'')],
                    [(''ID'', PStr ''b''), (''title'', PStr ''deep learning!!'')]]] ! i))"
    by simp
  from continue_import_reassembles [of
        "[[[(''ID'', PStr ''a''), (''title'', PStr ''Deep Learning'')],
          [(''ID'', PStr ''b''), (''title'', PStr ''deep learning!!'')]]]"
        "[0 \<mapsto> 1]"
        "[[(''ID'', PStr ''a''), (''title'', PStr ''Deep Learning'')],
         [(''ID'', PStr ''b''), (''title'', PStr ''deep learning!!'')],
         [(''ID'', PStr ''c''), (''title'', PStr ''Other'')]]", OF h]
  have "continue_import
        [[[(''ID'', PStr ''a''), (''title'', PStr ''Deep Learning'')],
          [(''ID'', PStr ''b''), (''title'', PStr ''deep learning!!'')]]]
        [0 \<mapsto> 1]
        [[(''ID'', PStr ''a''), (''title'', PStr ''Deep Learning'')],
         [(''ID'', PStr ''b''), (''title'', PStr ''deep learning!!'')],
         [(''ID'', PStr ''c''), (''title'', PStr ''Other'')]]
      = Inr [[(''ID'', PStr ''b''), (''title'', PStr ''deep learning!!'')],
             [(''ID'', PStr ''c''), (''title'', PStr ''Other'')]]"
    by (simp add: dict_get_def)
  then show ?thesis by (intro conjI) (simp_all add: dict_len_def)
qed


section \<open>The similarity grouper\<close>

lemma find_snoc:
  "find P (xs @ [x]) = (case find P xs of None \<Rightarrow> (if P x then Some x else None) | Some y \<Rightarrow> Some y)"
  by (induction xs) auto

lemma last_with_Cons:
  "last_with P (x # xs) =
     (case last_with P xs of None \<Rightarrow> (if P x then Some x else None) | Some y \<Rightarrow> Some y)"
  by (simp add: last_with_def find_snoc)

lemma find_mem: "find P ys = Some x \<Longrightarrow> x \<in> set ys \<and> P x"
  by (induction ys) (auto split: if_splits)

lemma last_with_mem: "last_with P xs = Some x \<Longrightarrow> x \<in> set xs \<and> P x"
  using find_mem [of P "rev xs" x] by (simp add: last_with_def)

lemma title_map_lookup:
  "\<forall>e \<in> set es. str_title e \<Longrightarrow>
   \<exists>m'. title_map es m = Inr m' \<and>
     (\<forall>t. map_of m' t = (case last_with (\<lambda>e. normTitle e = t) es of
                           Some e \<Rightarrow> Some e | None \<Rightarrow> map_of m t))"
proof (induction es arbitrary: m)
  case Nil
  then show ?case by (simp add: last_with_def)
next
  case (Cons e es)
  from Cons.prems have nt: "normalize_title (get_title e) = Inr (normTitle e)"
    by (simp add: normalize_title_code)
  from Cons.prems have "\<forall>e \<in> set es. str_title e" by simp
  from Cons.IH [OF this, of "dict_set (normTitle e) e m"]
  obtain m' where m': "title_map es (dict_set (normTitle e) e m) = Inr m'"
    and l: "\<forall>t. map_of m' t = (case last_with (\<lambda>e. normTitle e = t) es of
                           Some e \<Rightarrow> Some e | None \<Rightarrow> map_of (dict_set (normTitle e) e m) t)"
    by blast
  have "map_of m' t = (case last_with (\<lambda>e. normTitle e = t) (e # es) of
                           Some e \<Rightarrow> Some e | None \<Rightarrow> map_of m t)" for t
    using l by (auto simp: last_with_Cons map_of_dict_set split: option.splits)
  with nt m' show ?case by simp
qed

lemma id_map_lookup:
  "map_of (id_map es m) i = (case last_with (\<lambda>e. normId e = i) es of
                               Some e \<Rightarrow> Some e | None \<Rightarrow> map_of m i)"
proof (induction es arbitrary: m)
  case Nil
  then show ?case by (simp add: last_with_def)
next
  case (Cons e es)
  show ?case
    by (auto simp: Cons.IH last_with_Cons map_of_dict_set normId_def split: option.splits)
qed

lemma exact_match_spec:
  assumes tm: "\<forall>t. map_of tm t = last_with (\<lambda>e. normTitle e = t) existing"
    and im: "\<forall>i. map_of im i = last_with (\<lambda>e. normId e = i) existing"
    and keys: "\<forall>e \<in> set existing. has_keys e"
  shows "exact_match tm im (normTitle r) (normId r) r = Inr (reconciled_last existing r)"
proof -
  have idc: "id_clause im (normId r) r =
      Inr (case last_with (\<lambda>e. normId e = normId r) existing of
         None \<Rightarrow> False
       | Some e \<Rightarrow> map_of e ''title'' = Some (get_title r))"
  proof (cases "last_with (\<lambda>e. normId e = normId r) existing")
    case None
    with im show ?thesis by (simp add: id_clause_def)
  next
    case (Some e)
    with keys last_with_mem [OF Some] obtain v where "map_of e ''title'' = Some v"
      by (auto simp: has_keys_def)
    with Some im show ?thesis by (simp add: id_clause_def dict_item_def)
  qed
  show ?thesis
  proof (cases "last_with (\<lambda>e. normTitle e = normTitle r) existing")
    case None
    with tm idc show ?thesis by (simp add: exact_match_def reconciled_last_def)
  next
    case (Some e)
    with keys last_with_mem [OF Some] obtain v where "map_of e ''ID'' = Some v"
      by (auto simp: has_keys_def)
    with Some tm idc show ?thesis
      by (simp add: exact_match_def reconciled_last_def dict_item_def)
  qed
qed

lemma unproc_Cons:
  "unproc P (p # ps) = (if fst p \<in> P then unproc P ps else snd p # unproc P ps)"
  by (simp add: unproc_def)

lemma unproc_insert: "j \<notin> fst ` set ps \<Longrightarrow> unproc (insert j P) ps = unproc P ps"
  unfolding unproc_def by (rule arg_cong [where f = "map snd"], rule filter_cong) auto

lemma scan_later_spec:
  assumes "distinct (map fst ps)" and "\<forall>p \<in> set ps. str_title (snd p)"
  shows "scan_later t1 i1 ps (g, P) =
     Inr (g @ filter (matches t1 i1) (unproc P ps),
          P \<union> fst ` {p \<in> set ps. fst p \<notin> P \<and> matches t1 i1 (snd p)})"
  using assms
proof (induction ps arbitrary: g P)
  case Nil
  then show ?case by (simp add: unproc_def)
next
  case (Cons p ps)
  obtain j e where p: "p = (j, e)" by (cases p)
  from Cons.prems p have d: "distinct (map fst ps)" and j: "j \<notin> fst ` set ps"
    and s: "\<forall>p \<in> set ps. str_title (snd p)"
    and nt: "normalize_title (get_title e) = Inr (normTitle e)"
    by (auto simp: normalize_title_code)
  note IH = Cons.IH [OF d s]
  show ?case
  proof (cases "j \<in> P")
    case True
    have "{q \<in> set (p # ps). fst q \<notin> P \<and> matches t1 i1 (snd q)}
        = {q \<in> set ps. fst q \<notin> P \<and> matches t1 i1 (snd q)}"
      using True p by auto
    with True show ?thesis by (simp add: p IH unproc_Cons)
  next
    case False
    show ?thesis
    proof (cases "matches t1 i1 e")
      case True
      have "{q \<in> set (p # ps). fst q \<notin> P \<and> matches t1 i1 (snd q)}
          = insert p {q \<in> set ps. fst q \<notin> insert j P \<and> matches t1 i1 (snd q)}"
        using True False p j by auto
      with True False nt show ?thesis
        by (simp add: p IH unproc_Cons unproc_insert [OF j] matches_def normId_def)
    next
      case nomatch: False
      have "{q \<in> set (p # ps). fst q \<notin> P \<and> matches t1 i1 (snd q)}
          = {q \<in> set ps. fst q \<notin> P \<and> matches t1 i1 (snd q)}"
        using nomatch p by auto
      with nomatch False nt show ?thesis
        by (simp add: p IH unproc_Cons matches_def normId_def)
    qed
  qed
qed

lemma unproc_after_scan:
  assumes "distinct (map fst ps)" and "i \<notin> fst ` set ps"
  shows "unproc (insert i P \<union> fst ` {p \<in> set ps. fst p \<notin> insert i P \<and> m (snd p)}) ps
       = filter (\<lambda>r2. \<not> m r2) (unproc P ps)"
proof -
  let ?S = "{p \<in> set ps. fst p \<notin> insert i P \<and> m (snd p)}"
  from assms(1) have inj: "inj_on fst (set ps)" by (simp add: distinct_map)
  have "fst p \<notin> insert i P \<union> fst ` ?S \<longleftrightarrow> fst p \<notin> P \<and> \<not> m (snd p)"
    if mem: "p \<in> set ps" for p
  proof -
    from mem assms(2) have ne: "fst p \<noteq> i" by auto
    have "fst p \<in> fst ` ?S \<longleftrightarrow> p \<in> ?S"
    proof
      assume "fst p \<in> fst ` ?S"
      then obtain q where q: "q \<in> ?S" "fst q = fst p" by (auto simp: image_iff)
      with inj mem have "q = p" by (auto dest: inj_onD)
      with q show "p \<in> ?S" by simp
    next
      assume "p \<in> ?S"
      then show "fst p \<in> fst ` ?S" by (rule imageI)
    qed
    with mem ne show ?thesis by auto
  qed
  then have "filter (\<lambda>p. fst p \<notin> insert i P \<union> fst ` ?S) ps
     = filter (\<lambda>p. fst p \<notin> P \<and> \<not> m (snd p)) ps"
    by (intro filter_cong) auto
  then show ?thesis
    by (simp add: unproc_def filter_map o_def conj_commute)
qed

lemma group_loop_spec:
  assumes str: "\<forall>e \<in> set es. str_title e"
    and ex: "\<forall>r. exact_match tm im (normTitle r) (normId r) r = Inr (excl r)"
  shows "i \<le> length es \<Longrightarrow>
    \<exists>P'. group_loop es tm im (enumerate i (drop i es)) (G, P)
         = Inr (G @ anchor_groups excl (unproc P (enumerate i (drop i es))), P')"
proof (induction "length es - i" arbitrary: i G P)
  case 0
  then show ?case by (simp add: unproc_def)
next
  case (Suc n)
  then have lt: "i < length es" and n: "n = length es - Suc i" and le: "Suc i \<le> length es"
    by simp_all
  define e1 where "e1 = es ! i"
  define rest where "rest = enumerate (Suc i) (drop (Suc i) es)"
  have ps: "enumerate i (drop i es) = (i, e1) # rest"
    using lt by (simp add: e1_def rest_def Cons_nth_drop_Suc [symmetric])
  have dist: "distinct (map fst rest)" by (simp add: rest_def)
  have fresh: "i \<notin> fst ` set rest"
    by (auto simp: rest_def in_set_enumerate_eq)
  have strs: "\<forall>p \<in> set rest. str_title (snd p)"
    using str by (auto simp: rest_def in_set_enumerate_eq dest: in_set_dropD)
  from str lt have "str_title e1" by (simp add: e1_def)
  then have nt: "normalize_title (get_title e1) = Inr (normTitle e1)"
    by (simp add: normalize_title_code)
  note IH = Suc.hyps(1) [OF n le, unfolded rest_def [symmetric]]
  show ?case
  proof (cases "i \<in> P")
    case True
    with IH [of G P] show ?thesis by (simp add: ps unproc_Cons)
  next
    case False
    define grp where "grp = e1 # filter (similar e1) (unproc P rest)"
    define P1 where "P1 = insert i P \<union>
        fst ` {p \<in> set rest. fst p \<notin> insert i P \<and> matches (normTitle e1) (normId e1) (snd p)}"
    have sim: "matches (normTitle e1) (normId e1) = similar e1"
      by (simp add: fun_eq_iff matches_def similar_def)
    have scan: "scan_later (normTitle e1) (normId e1) rest ([e1], insert i P) = Inr (grp, P1)"
      using scan_later_spec [OF dist strs, of "normTitle e1" "normId e1" "[e1]" "insert i P"]
      by (simp add: grp_def P1_def unproc_insert [OF fresh] sim)
    have after: "unproc P1 rest = filter (\<lambda>r2. \<not> similar e1 r2) (unproc P rest)"
      unfolding P1_def sim by (rule unproc_after_scan [OF dist fresh])
    have em: "exact_match tm im (normTitle e1) (normId e1) e1 = Inr (excl e1)"
      using ex by simp
    have step: "group_loop es tm im ((i, e1) # rest) (G, P) =
        (if excl e1 then group_loop es tm im rest (G, P1)
         else if length grp > 1 then group_loop es tm im rest (G @ [grp], P1)
         else group_loop es tm im rest (G, P1))"
      using False nt scan em by (simp add: rest_def normId_def)
    have spec: "anchor_groups excl (unproc P ((i, e1) # rest)) =
        (if 2 \<le> length grp \<and> \<not> excl e1
         then grp # anchor_groups excl (unproc P1 rest)
         else anchor_groups excl (unproc P1 rest))"
      using False by (simp add: unproc_Cons grp_def after)
    show ?thesis
    proof (cases "excl e1 \<or> \<not> length grp > 1")
      case True
      with IH [of G P1] step spec show ?thesis by (auto simp: ps)
    next
      case keep: False
      with IH [of "G @ [grp]" P1] step spec show ?thesis by (auto simp: ps)
    qed
  qed
qed

lemma last_with_unique:
  assumes "distinct (map f xs)"
  shows "last_with (\<lambda>x. f x = k) xs = Some e \<longleftrightarrow> e \<in> set xs \<and> f e = k"
  using assms
proof (induction xs)
  case Nil
  then show ?case by (simp add: last_with_def)
next
  case (Cons x xs)
  then have IH: "last_with (\<lambda>x. f x = k) xs = Some e \<longleftrightarrow> e \<in> set xs \<and> f e = k"
    and nx: "f x \<notin> f ` set xs"
    by simp_all
  show ?case
  proof (cases "last_with (\<lambda>x. f x = k) xs")
    case None
    with IH have "\<not> (e \<in> set xs \<and> f e = k)" by simp
    with None show ?thesis by (auto simp: last_with_Cons)
  next
    case (Some y)
    with last_with_mem [OF Some] nx have "f x \<noteq> k" by auto
    with Some IH show ?thesis by (auto simp: last_with_Cons)
  qed
qed

lemma last_with_unique_case:
  assumes "distinct (map f xs)"
  shows "(case last_with (\<lambda>x. f x = k) xs of None \<Rightarrow> False | Some e \<Rightarrow> Q e)
     \<longleftrightarrow> (\<exists>e \<in> set xs. f e = k \<and> Q e)"
proof (cases "last_with (\<lambda>x. f x = k) xs")
  case None
  have "\<not> (e \<in> set xs \<and> f e = k)" for e
    using last_with_unique [OF assms, of k e] None by simp
  with None show ?thesis by auto
next
  case (Some y)
  have u: "e \<in> set xs \<and> f e = k \<longleftrightarrow> e = y" for e
    using last_with_unique [OF assms, of k e] Some by auto
  have "(\<exists>e \<in> set xs. f e = k \<and> Q e) \<longleftrightarrow> Q y"
  proof
    assume "\<exists>e \<in> set xs. f e = k \<and> Q e"
    then obtain e where "e \<in> set xs \<and> f e = k" "Q e" by blast
    with u [of e] show "Q y" by simp
  next
    assume "Q y"
    with u [of y] show "\<exists>e \<in> set xs. f e = k \<and> Q e" by blast
  qed
  with Some show ?thesis by simp
qed

lemma reconciled_last_any:
  assumes "distinct (map normTitle existing)" and "distinct (map normId existing)"
  shows "reconciled_last existing = reconciled_any existing"
  unfolding fun_eq_iff reconciled_last_def reconciled_any_def
  by (simp only: last_with_unique_case [OF assms(1)] last_with_unique_case [OF assms(2)] simp_thms)

lemma find_similar_entries_spec:
  assumes "\<forall>e \<in> set entries. str_title e"
    and "\<forall>e \<in> set existing. str_title e \<and> has_keys e"
  shows "find_similar_entries entries existing
         = Inr (anchor_groups (reconciled_last existing) entries)"
proof -
  from assms(2) have "\<forall>e \<in> set existing. str_title e" by simp
  from title_map_lookup [OF this, of "[]"]
  obtain tm where tm: "title_map existing [] = Inr tm"
    and tl0: "\<forall>t. map_of tm t = (case last_with (\<lambda>e. normTitle e = t) existing of
                           Some e \<Rightarrow> Some e | None \<Rightarrow> map_of [] t)"
    by blast
  have tl: "\<forall>t. map_of tm t = last_with (\<lambda>e. normTitle e = t) existing"
  proof
    fix t
    show "map_of tm t = last_with (\<lambda>e. normTitle e = t) existing"
      by (cases "last_with (\<lambda>e. normTitle e = t) existing") (simp_all add: tl0)
  qed
  have il: "\<forall>i. map_of (id_map existing []) i = last_with (\<lambda>e. normId e = i) existing"
  proof
    fix i
    show "map_of (id_map existing []) i = last_with (\<lambda>e. normId e = i) existing"
      by (cases "last_with (\<lambda>e. normId e = i) existing") (simp_all add: id_map_lookup)
  qed
  from assms(2) have keys: "\<forall>e \<in> set existing. has_keys e" by simp
  have ex: "\<forall>r. exact_match tm (id_map existing []) (normTitle r) (normId r) r
      = Inr (reconciled_last existing r)"
    using exact_match_spec [OF tl il keys] by simp
  from group_loop_spec [OF assms(1) ex, of 0 "[]" "{}"]
  obtain P' where "group_loop entries tm (id_map existing []) (enumerate 0 entries) ([], {})
      = Inr (anchor_groups (reconciled_last existing) (unproc {} (enumerate 0 entries)), P')"
    by auto
  moreover have "unproc {} (enumerate 0 entries) = entries"
    by (simp add: unproc_def)
  ultimately show ?thesis using tm by (simp add: find_similar_entries_def)
qed

lemmas grouper_defs = find_similar_entries_def exact_match_def id_clause_def dict_item_def
  normalize_id_def py_str_def normalize_title_def dict_get_def
  lower_char_def ascii_upper_def ascii_lower_def ascii_digits_def

text \<open>
  Claim C4, as the code has it. For every batch and every existing collection whose
  records all have a \<^verbatim>\<open>title\<close> key and an \<^verbatim>\<open>ID\<close> key (titles being
  strings), the grouper returns exactly the groups of the anchor scan: each record not
  yet processed, in batch order, starts a group and takes every later record not yet
  processed that agrees with it on the normalized \<^verbatim>\<open>ID\<close> or the normalized title;
  groups of one record are dropped, and a whole group is dropped when the last existing
  record with the anchor's normalized title has the anchor's raw \<^verbatim>\<open>ID\<close>, or the last
  existing record with the anchor's normalized \<^verbatim>\<open>ID\<close> has the anchor's raw title.
  When no two existing records share a normalized title or a normalized \<^verbatim>\<open>ID\<close>,
  "the last existing record" is "some existing record".
\<close>

theorem find_similar_entries_anchor_scan:
  assumes "\<forall>e \<in> set entries. str_title e"
    and "\<forall>e \<in> set existing_entries. str_title e \<and> has_keys e"
  shows "find_similar_entries entries existing_entries
           = Inr (anchor_groups (reconciled_last existing_entries) entries)
     \<and> (distinct (map normTitle existing_entries) \<and> distinct (map normId existing_entries) \<longrightarrow>
          find_similar_entries entries existing_entries
           = Inr (anchor_groups (reconciled_any existing_entries) entries))"
  using find_similar_entries_spec [OF assms] reconciled_last_any [of existing_entries]
  by simp

theorem find_similar_entries_anchor_scan_witness:
  "str_title [(''ID'', PStr ''a''), (''title'', PStr ''Deep Learning'')]
   \<and> str_title [(''ID'', PStr ''b''), (''title'', PStr ''deep learning!!'')]
   \<and> str_title [(''ID'', PStr ''c''), (''title'', PStr ''Other'')]
   \<and> str_title [(''ID'', PStr ''z''), (''title'', PStr ''Other'')]
   \<and> has_keys [(''ID'', PStr ''z''), (''title'', PStr ''Other'')]
   \<and> find_similar_entries
        [[(''ID'', PStr ''a''), (''title'', PStr ''Deep Learning'')],
         [(''ID'', PStr ''b''), (''title'', PStr ''deep learning!!'')],
         [(''ID'', PStr ''c''), (''title'', PStr ''Other'')]]
        [[(''ID'', PStr ''z''), (''title'', PStr ''Other'')]]
      = Inr [[[(''ID'', PStr ''a''), (''title'', PStr ''Deep Learning'')],
              [(''ID'', PStr ''b''), (''title'', PStr ''deep learning!!'')]]]
   \<and> anchor_groups (reconciled_any [[(''ID'', PStr ''z''), (''title'', PStr ''Other'')]])
        [[(''ID'', PStr ''a''), (''title'', PStr ''Deep Learning'')],
         [(''ID'', PStr ''b''), (''title'', PStr ''deep learning!!'')],
         [(''ID'', PStr ''c''), (''title'', PStr ''Other'')]]
      = [[[(''ID'', PStr ''a''), (''title'', PStr ''Deep Learning'')],
          [(''ID'', PStr ''b''), (''title'', PStr ''deep learning!!'')]]]"
proof -
  have h1: "\<forall>e \<in> set [[(''ID'', PStr ''a''), (''title'', PStr ''Deep Learning'')],
         [(''ID'', PStr ''b''), (''title'', PStr ''deep learning!!'')],
         [(''ID'', PStr ''c''), (''title'', PStr ''Other'')]]. str_title e"
    by (simp add: str_title_def)
  have h2: "\<forall>e \<in> set [[(''ID'', PStr ''z''), (''title'', PStr ''Other'')]]. str_title e \<and> has_keys e"
    by (simp add: str_title_def has_keys_def)
  have d: "distinct (map normTitle [[(''ID'', PStr ''z''), (''title'', PStr ''Other'')]])
      \<and> distinct (map normId [[(''ID'', PStr ''z''), (''title'', PStr ''Other'')]])"
    by simp
  have ev: "find_similar_entries
        [[(''ID'', PStr ''a''), (''title'', PStr ''Deep Learning'')],
         [(''ID'', PStr ''b''), (''title'', PStr ''deep learning!!'')],
         [(''ID'', PStr ''c''), (''title'', PStr ''Other'')]]
        [[(''ID'', PStr ''z''), (''title'', PStr ''Other'')]]
      = Inr [[[(''ID'', PStr ''a''), (''title'', PStr ''Deep Learning'')],
              [(''ID'', PStr ''b''), (''title'', PStr ''deep learning!!'')]]]"
    by (simp add: grouper_defs)
  from find_similar_entries_anchor_scan [OF h1 h2, THEN conjunct2, THEN mp, OF d] ev
  have "anchor_groups (reconciled_any [[(''ID'', PStr ''z''), (''title'', PStr ''Other'')]])
        [[(''ID'', PStr ''a''), (''title'', PStr ''Deep Learning'')],
         [(''ID'', PStr ''b''), (''title'', PStr ''deep learning!!'')],
         [(''ID'', PStr ''c''), (''title'', PStr ''Other'')]]
      = [[[(''ID'', PStr ''a''), (''title'', PStr ''Deep Learning'')],
          [(''ID'', PStr ''b''), (''title'', PStr ''deep learning!!'')]]]"
    by (simp only: sum.inject)
  with ev show ?thesis by (intro conjI) (simp_all add: str_title_def has_keys_def)
qed

text \<open>
  Claim C4 as it is worded, for every existing collection and with "an existing record",
  fails: without these conditions the grouper differs from the scan of the claim. An
  existing record with the anchor's title and no \<^verbatim>\<open>ID\<close> makes it raise
  \<^verbatim>\<open>KeyError\<close>. And with two existing records \<^verbatim>\<open>a\<close> and \<^verbatim>\<open>A\<close> of the same
  normalized \<^verbatim>\<open>ID\<close>, the dictionary holds the second: the anchor \<^verbatim>\<open>a!\<close> with
  the title of the first is not excluded, although some existing record with its
  normalized \<^verbatim>\<open>ID\<close> has its raw title.
\<close>

theorem find_similar_entries_counterexample:
  "find_similar_entries
     [[(''ID'', PStr ''a''), (''title'', PStr ''X'')], [(''ID'', PStr ''b''), (''title'', PStr ''X'')]]
     [[(''title'', PStr ''X'')]]
   = Inl KeyError
   \<and> find_similar_entries
       [[(''ID'', PStr ''a!''), (''title'', PStr ''X'')], [(''ID'', PStr ''b''), (''title'', PStr ''X'')]]
       [[(''ID'', PStr ''a''), (''title'', PStr ''X'')], [(''ID'', PStr ''A''), (''title'', PStr ''Y'')]]
     = Inr [[[(''ID'', PStr ''a!''), (''title'', PStr ''X'')],
             [(''ID'', PStr ''b''), (''title'', PStr ''X'')]]]
   \<and> anchor_groups
       (reconciled_any
          [[(''ID'', PStr ''a''), (''title'', PStr ''X'')], [(''ID'', PStr ''A''), (''title'', PStr ''Y'')]])
       [[(''ID'', PStr ''a!''), (''title'', PStr ''X'')], [(''ID'', PStr ''b''), (''title'', PStr ''X'')]]
     = []"
  by (simp add: grouper_defs reconciled_any_def similar_def normId_def normTitle_def)

text \<open>
  Claim C10. When every record of the existing collection has a \<^verbatim>\<open>title\<close> key
  and an \<^verbatim>\<open>ID\<close> key, the grouper returns its groups and raises nothing, for every
  batch (the records being those of the data model: titles are strings). The condition
  is needed: the exclusion check subscripts the matched existing record, and an existing
  record that matches the anchor and lacks \<^verbatim>\<open>ID\<close>, or lacks \<^verbatim>\<open>title\<close>, makes
  the grouper raise \<^verbatim>\<open>KeyError\<close>.
\<close>

theorem find_similar_entries_no_exception:
  assumes "\<forall>e \<in> set existing_entries. map_of e ''title'' \<noteq> None \<and> map_of e ''ID'' \<noteq> None"
    and "\<forall>e \<in> set entries. str_title e" and "\<forall>e \<in> set existing_entries. str_title e"
  shows "(\<exists>similar_groups. find_similar_entries entries existing_entries = Inr similar_groups)
     \<and> find_similar_entries
          [[(''ID'', PStr ''a''), (''title'', PStr ''X'')]] [[(''title'', PStr ''X'')]]
        = Inl KeyError
     \<and> find_similar_entries
          [[(''ID'', PStr ''a''), (''title'', PStr ''X'')]] [[(''ID'', PStr ''a'')]]
        = Inl KeyError"
proof -
  from assms(1,3) have "\<forall>e \<in> set existing_entries. str_title e \<and> has_keys e"
    by (simp add: has_keys_def)
  from find_similar_entries_spec [OF assms(2) this]
  have "\<exists>similar_groups. find_similar_entries entries existing_entries = Inr similar_groups"
    by (rule exI)
  moreover have "find_similar_entries
          [[(''ID'', PStr ''a''), (''title'', PStr ''X'')]] [[(''title'', PStr ''X'')]]
        = Inl KeyError"
    by (simp add: grouper_defs)
  moreover have "find_similar_entries
          [[(''ID'', PStr ''a''), (''title'', PStr ''X'')]] [[(''ID'', PStr ''a'')]]
        = Inl KeyError"
    by (simp add: grouper_defs)
  ultimately show ?thesis by (intro conjI)
qed

theorem find_similar_entries_no_exception_witness:
  "map_of [(''ID'', PStr ''a''), (''title'', PStr ''Deep Learning'')] ''title'' \<noteq> None
   \<and> map_of [(''ID'', PStr ''a''), (''title'', PStr ''Deep Learning'')] ''ID'' \<noteq> None
   \<and> str_title [(''ID'', PStr ''a''), (''title'', PStr ''Deep Learning'')]
   \<and> str_title [(''ID'', PStr ''b''), (''title'', PStr ''deep learning!!'')]
   \<and> (\<exists>similar_groups. find_similar_entries
         [[(''ID'', PStr ''a''), (''title'', PStr ''Deep Learning'')],
          [(''ID'', PStr ''b''), (''title'', PStr ''deep learning!!'')]]
         [[(''ID'', PStr ''a''), (''title'', PStr ''Deep Learning'')]] = Inr similar_groups)
   \<and> find_similar_entries
         [[(''ID'', PStr ''a''), (''title'', PStr ''Deep Learning'')],
          [(''ID'', PStr ''b''), (''title'', PStr ''deep learning!!'')]]
         [[(''ID'', PStr ''a''), (''title'', PStr ''Deep Learning'')]] = Inr []"
proof -
  have h1: "\<forall>e \<in> set [[(''ID'', PStr ''a''), (''title'', PStr ''Deep Learning'')]].
      map_of e ''title'' \<noteq> None \<and> map_of e ''ID'' \<noteq> None"
    by simp
  have h2: "\<forall>e \<in> set [[(''ID'', PStr ''a''), (''title'', PStr ''Deep Learning'')],
          [(''ID'', PStr ''b''), (''title'', PStr ''deep learning!!'')]]. str_title e"
    by (simp add: str_title_def)
  have h3: "\<forall>e \<in> set [[(''ID'', PStr ''a''), (''title'', PStr ''Deep Learning'')]]. str_title e"
    by (simp add: str_title_def)
  note ex = find_similar_entries_no_exception [OF h1 h2 h3, THEN conjunct1]
  have ev: "find_similar_entries
         [[(''ID'', PStr ''a''), (''title'', PStr ''Deep Learning'')],
          [(''ID'', PStr ''b''), (''title'', PStr ''deep learning!!'')]]
         [[(''ID'', PStr ''a''), (''title'', PStr ''Deep Learning'')]] = Inr []"
    by (simp add: grouper_defs)
  from ex ev show ?thesis by (intro conjI) (simp_all add: str_title_def)
qed

end
